theory Spec2Isabelle
  imports Complex_Main
begin

section \<open>Python strings\<close>

text \<open>
  Strings are lists of 8-bit characters. The model covers ASCII text, which is what
  the diagnostic tool prints: the character classes below are the ASCII part of
  Python's \<^verbatim>\<open>str.isspace\<close>, \<^verbatim>\<open>\d\<close>, \<^verbatim>\<open>\s\<close> and of the
  line boundaries of \<^verbatim>\<open>str.splitlines\<close>.
\<close>

definition py_isspace :: "char \<Rightarrow> bool" where
  "py_isspace c = (c \<in> set [CHR 0x09, CHR 0x0A, CHR 0x0B, CHR 0x0C, CHR 0x0D,
                              CHR 0x1C, CHR 0x1D, CHR 0x1E, CHR 0x1F, CHR 0x20])"

definition is_linebreak :: "char \<Rightarrow> bool" where
  "is_linebreak c = (c \<in> set [CHR 0x0A, CHR 0x0B, CHR 0x0C, CHR 0x0D,
                                CHR 0x1C, CHR 0x1D, CHR 0x1E])"

definition is_digit :: "char \<Rightarrow> bool" where
  "is_digit c = (c \<in> set ''0123456789'')"

definition is_alpha :: "char \<Rightarrow> bool" where
  "is_alpha c = (c \<in> set ''abcdefghijklmnopqrstuvwxyzABCDEFGHIJKLMNOPQRSTUVWXYZ'')"

definition lstrip :: "string \<Rightarrow> string" where
  "lstrip s = dropWhile py_isspace s"

definition rstrip :: "string \<Rightarrow> string" where
  "rstrip s = rev (dropWhile py_isspace (rev s))"

definition strip :: "string \<Rightarrow> string" where
  "strip s = lstrip (rstrip s)"

text \<open>\<^verbatim>\<open>s.strip(",")\<close> and \<^verbatim>\<open>line.rstrip("\n")\<close>: strip one given character.\<close>

definition strip_char :: "char \<Rightarrow> string \<Rightarrow> string" where
  "strip_char x s = dropWhile (\<lambda>c. c = x) (rev (dropWhile (\<lambda>c. c = x) (rev s)))"

definition rstrip_char :: "char \<Rightarrow> string \<Rightarrow> string" where
  "rstrip_char x s = rev (dropWhile (\<lambda>c. c = x) (rev s))"

definition startswith :: "string \<Rightarrow> string \<Rightarrow> bool" where
  "startswith s p = (take (length p) s = p)"

definition endswith :: "string \<Rightarrow> string \<Rightarrow> bool" where
  "endswith s p = (length p \<le> length s \<and> drop (length s - length p) s = p)"

text \<open>
  \<^verbatim>\<open>str.splitlines()\<close>: a line ends at a line boundary, CR LF counts as one
  boundary, and a text that ends with a boundary has no empty last line.
\<close>

fun splitlines :: "string \<Rightarrow> string list" where
  "splitlines [] = []"
| "splitlines (c # cs) =
     (if is_linebreak c
      then (case cs of
              d # ds \<Rightarrow> if c = CHR 0x0D \<and> d = CHR 0x0A then [] # splitlines ds
                        else [] # splitlines cs
            | [] \<Rightarrow> [] # splitlines cs)
      else (case splitlines cs of [] \<Rightarrow> [[c]] | l # ls \<Rightarrow> (c # l) # ls))"

section \<open>The diagnostic text splitter\<close>

text \<open>
  \<^verbatim>\<open>split_blocks\<close> of \<^verbatim>\<open>scripts/parse_ss_tin_output.py\<close>. The loop carries the blocks
  emitted so far, the open header (\<^verbatim>\<open>cur_header\<close>, \<open>None\<close> before the first header)
  and its continuation lines (\<^verbatim>\<open>cur_cont\<close>).
\<close>

type_synonym block = "string \<times> string list"

definition is_blank :: "string \<Rightarrow> bool" where
  "is_blank line = (strip line = [])"

definition is_state_row :: "string \<Rightarrow> bool" where
  "is_state_row line = startswith (lstrip line) ''State ''"

definition is_indented :: "string \<Rightarrow> bool" where
  "is_indented line = (case line of [] \<Rightarrow> False | c # _ \<Rightarrow> py_isspace c)"

fun split_loop :: "string list \<Rightarrow> block list \<Rightarrow> string option \<Rightarrow> string list \<Rightarrow> block list" where
  "split_loop [] blocks cur_header cur_cont =
     (case cur_header of None \<Rightarrow> blocks | Some h \<Rightarrow> blocks @ [(h, cur_cont)])"
| "split_loop (line # lns) blocks cur_header cur_cont =
     (if is_blank line then split_loop lns blocks cur_header cur_cont
      else if is_state_row line then split_loop lns blocks cur_header cur_cont
      else if is_indented line then
        (case cur_header of
           Some h \<Rightarrow> split_loop lns blocks cur_header (cur_cont @ [strip line])
         | None \<Rightarrow> split_loop lns (blocks @ [([], [strip line])]) cur_header cur_cont)
      else
        split_loop lns
          (case cur_header of Some h \<Rightarrow> blocks @ [(h, cur_cont)] | None \<Rightarrow> blocks)
          (Some (strip line)) [])"

definition input_lines :: "string \<Rightarrow> string list" where
  "input_lines ss_output = map (rstrip_char CHR 0x0A) (splitlines ss_output)"

definition split_blocks :: "string \<Rightarrow> block list" where
  "split_blocks ss_output = split_loop (input_lines ss_output) [] None []"

text \<open>The lines the loop does not skip.\<close>

definition kept_line :: "string \<Rightarrow> bool" where
  "kept_line line = (\<not> is_blank line \<and> \<not> is_state_row line)"

text \<open>Every string a block holds: its header, unless it is the empty marker of a stray
  continuation, and its continuation lines.\<close>

definition block_entries :: "block \<Rightarrow> string list" where
  "block_entries b = (if fst b = [] then [] else [fst b]) @ snd b"

text \<open>An entry of a block comes from a line of the input that the loop kept.\<close>

definition entry_ok :: "string list \<Rightarrow> string \<Rightarrow> bool" where
  "entry_ok lns e = (\<exists>line\<in>set lns. kept_line line \<and> e = strip line)"


section \<open>Values\<close>

text \<open>
  The parser builds Python dicts, lists, strings and numbers and hands them to
  \<^verbatim>\<open>json.dumps\<close>. A dict keeps its keys in insertion order, so it is a list of
  pairs with distinct keys. A float is kept as the exact decimal number its literal
  denotes, which Python rounds to the nearest double: the rounding is a function of
  that number, so equal decimals give equal floats.
\<close>

datatype pyval =
    VNone
  | VBool bool
  | VInt int
  | VFloat rat
  | VStr string
  | VList "pyval list"
  | VDict "(string \<times> pyval) list"

datatype py_error = AttributeError | OSError | TypeError

type_synonym pydict = "(string \<times> pyval) list"

text \<open>\<^verbatim>\<open>d[k] = v\<close>: an existing key keeps its place.\<close>

definition dict_set :: "pydict \<Rightarrow> string \<Rightarrow> pyval \<Rightarrow> pydict" where
  "dict_set d k v =
     (if k \<in> fst ` set d then map (\<lambda>(k', v'). if k' = k then (k', v) else (k', v')) d
      else d @ [(k, v)])"

definition dict_get :: "pydict \<Rightarrow> string \<Rightarrow> pyval option" where
  "dict_get d k = map_of d k"

text \<open>
  \<^verbatim>\<open>d.setdefault(k, []).append(x)\<close>: when \<open>k\<close> already holds a value that is not a
  list, \<^verbatim>\<open>.append\<close> raises \<^verbatim>\<open>AttributeError\<close>.
\<close>

definition setdefault_append :: "pydict \<Rightarrow> string \<Rightarrow> string \<Rightarrow> py_error + pydict" where
  "setdefault_append d k x =
     (case dict_get d k of
        None \<Rightarrow> Inr (d @ [(k, VList [VStr x])])
      | Some (VList xs) \<Rightarrow> Inr (dict_set d k (VList (xs @ [VStr x])))
      | Some _ \<Rightarrow> Inl AttributeError)"

section \<open>Splitting strings\<close>

text \<open>\<^verbatim>\<open>s.split(sep)\<close> for a one-character separator: every separator splits.\<close>

fun split_on :: "char \<Rightarrow> string \<Rightarrow> string list" where
  "split_on sep [] = [[]]"
| "split_on sep (c # cs) =
     (if c = sep then [] # split_on sep cs
      else (case split_on sep cs of [] \<Rightarrow> [[c]] | l # ls \<Rightarrow> (c # l) # ls))"

text \<open>\<^verbatim>\<open>s.split(sep, 1)\<close> and \<^verbatim>\<open>s.rsplit(sep, 1)\<close>, for a string that holds \<open>sep\<close>.\<close>

definition split_first :: "char \<Rightarrow> string \<Rightarrow> string \<times> string" where
  "split_first sep s = (takeWhile (\<lambda>c. c \<noteq> sep) s, tl (dropWhile (\<lambda>c. c \<noteq> sep) s))"


text \<open>\<^verbatim>\<open>s.split()\<close>: the maximal runs of characters that are not whitespace.\<close>

fun words_from :: "string \<Rightarrow> string \<Rightarrow> string list" where
  "words_from cur [] = (if cur = [] then [] else [cur])"
| "words_from cur (c # cs) =
     (if py_isspace c then (if cur = [] then words_from [] cs else cur # words_from [] cs)
      else words_from (cur @ [c]) cs)"

definition py_words :: "string \<Rightarrow> string list" where
  "py_words s = words_from [] s"

text \<open>\<^verbatim>\<open>" ".join(xs)\<close>.\<close>

fun join_space :: "string list \<Rightarrow> string" where
  "join_space [] = []"
| "join_space [x] = x"
| "join_space (x # y # ys) = x @ '' '' @ join_space (y # ys)"

section \<open>Numbers\<close>

definition digit_val :: "char \<Rightarrow> int" where
  "digit_val c = of_char c - 48"

definition digits_val :: "string \<Rightarrow> int" where
  "digits_val s = foldl (\<lambda>a c. 10 * a + digit_val c) 0 s"

definition strip_sign :: "string \<Rightarrow> string" where
  "strip_sign s = (case s of [] \<Rightarrow> [] | c # r \<Rightarrow> if c = CHR ''+'' \<or> c = CHR ''-'' then r else s)"

definition is_negative :: "string \<Rightarrow> bool" where
  "is_negative s = (case s of [] \<Rightarrow> False | c # r \<Rightarrow> c = CHR ''-'')"

text \<open>
  \<^verbatim>\<open>int(s)\<close> and \<^verbatim>\<open>float(s)\<close> for a string the regular expressions below have
  accepted: an optional sign, digits, and for a float at most one point. Both ignore
  surrounding whitespace.
\<close>

definition py_int :: "string \<Rightarrow> int" where
  "py_int s = (let t = strip s; n = digits_val (strip_sign t)
               in if is_negative t then - n else n)"

definition py_float :: "string \<Rightarrow> rat" where
  "py_float s =
     (let t = strip s; u = strip_sign t;
          ip = takeWhile (\<lambda>c. c \<noteq> CHR ''.'') u;
          fp = drop 1 (dropWhile (\<lambda>c. c \<noteq> CHR ''.'') u);
          m = of_int (digits_val (ip @ fp)) / 10 ^ length fp
      in if is_negative t then - m else m)"

text \<open>\<^verbatim>\<open>float(x) if "." in x else int(x)\<close>.\<close>

definition py_num :: "string \<Rightarrow> pyval" where
  "py_num x = (if CHR ''.'' \<in> set x then VFloat (py_float x) else VInt (py_int x))"

section \<open>The regular expressions\<close>

text \<open>
  Each pattern is anchored by \<^verbatim>\<open>^\<close> and \<^verbatim>\<open>$\<close>. Without the multi-line flag
  \<^verbatim>\<open>$\<close> matches at the end of the string and also just before a line feed that
  ends the string, so \<^verbatim>\<open>^X$\<close> accepts \<open>s\<close> when \<open>X\<close> matches all of \<open>s\<close> or all of
  \<open>s\<close> but a final line feed.
\<close>

definition dollar :: "(string \<Rightarrow> bool) \<Rightarrow> string \<Rightarrow> bool" where
  "dollar P s = (P s \<or> (s \<noteq> [] \<and> last s = CHR 0x0A \<and> P (butlast s)))"

text \<open>\<^verbatim>\<open>\d+\.\d*|\d*\.\d+|\d+\<close> on a whole string.\<close>

definition unsigned_float_lit :: "string \<Rightarrow> bool" where
  "unsigned_float_lit u =
     (let a = takeWhile is_digit u; r = dropWhile is_digit u
      in case r of
           [] \<Rightarrow> a \<noteq> []
         | c # b \<Rightarrow> c = CHR ''.'' \<and> list_all is_digit b \<and> (a \<noteq> [] \<or> b \<noteq> []))"

text \<open>\<^verbatim>\<open>[+-]?(?:\d+\.\d*|\d*\.\d+|\d+)\<close> and \<^verbatim>\<open>[+-]?\d+\<close> on a whole string.\<close>

definition float_lit :: "string \<Rightarrow> bool" where
  "float_lit s = unsigned_float_lit (strip_sign s)"

definition int_lit :: "string \<Rightarrow> bool" where
  "int_lit s = (strip_sign s \<noteq> [] \<and> list_all is_digit (strip_sign s))"

definition RE_FLOAT :: "string \<Rightarrow> bool" where
  "RE_FLOAT s = dollar float_lit s"

definition RE_INT :: "string \<Rightarrow> bool" where
  "RE_INT s = dollar int_lit s"

text \<open>\<^verbatim>\<open>^[A-Za-z_][A-Za-z0-9_]*$\<close>.\<close>

definition is_word_char :: "char \<Rightarrow> bool" where
  "is_word_char c = (is_alpha c \<or> is_digit c \<or> c = CHR ''_'')"

definition ident_lit :: "string \<Rightarrow> bool" where
  "ident_lit s =
     (case s of [] \<Rightarrow> False | c # r \<Rightarrow> (is_alpha c \<or> c = CHR ''_'') \<and> list_all is_word_char r)"

definition RE_IDENTIFIER :: "string \<Rightarrow> bool" where
  "RE_IDENTIFIER s = dollar ident_lit s"

text \<open>
  \<^verbatim>\<open>^([+-]?(?:\d+\.\d*|\d*\.\d+|\d+))([A-Za-z%/]+)$\<close>, with its two groups. No
  character of the unit class can occur in the number, so the unit is the longest
  run of unit characters that ends the string.
\<close>

definition is_unit_char :: "char \<Rightarrow> bool" where
  "is_unit_char c = (is_alpha c \<or> c = CHR ''%'' \<or> c = CHR ''/'')"

definition num_unit_lit :: "string \<Rightarrow> (string \<times> string) option" where
  "num_unit_lit s =
     (let u = rev (takeWhile is_unit_char (rev s));
          n = rev (dropWhile is_unit_char (rev s))
      in if u \<noteq> [] \<and> float_lit n then Some (n, u) else None)"

definition RE_NUM_UNIT :: "string \<Rightarrow> (string \<times> string) option" where
  "RE_NUM_UNIT s =
     (case num_unit_lit s of
        Some g \<Rightarrow> Some g
      | None \<Rightarrow> if s \<noteq> [] \<and> last s = CHR 0x0A then num_unit_lit (butlast s) else None)"

section \<open>Value coercion\<close>

text \<open>\<^verbatim>\<open>coerce_value\<close>, rule by rule in the order of the source.\<close>

definition pair_rule :: "string \<Rightarrow> pyval option" where
  "pair_rule s =
     (if CHR ''/'' \<in> set s \<and> \<not> startswith s ''/'' \<and> \<not> endswith s ''/'' then
        (let left = strip (fst (split_first CHR ''/'' s));
             right = strip (snd (split_first CHR ''/'' s))
         in if RE_FLOAT left \<and> RE_FLOAT right
            then Some (VDict [(''a'', py_num left), (''b'', py_num right)])
            else None)
      else None)"

definition has_bracket :: "string \<Rightarrow> bool" where
  "has_bracket s = (\<exists>ch \<in> set ''()[]{}''. ch \<in> set s)"

definition comma_rule :: "string \<Rightarrow> pyval" where
  "comma_rule s =
     (let parts = filter (\<lambda>p. p \<noteq> []) (map strip (split_on CHR '','' s))
      in if parts \<noteq> [] \<and> list_all RE_FLOAT parts then VList (map py_num parts)
         else VList (map VStr parts))"

definition coerce_stripped :: "string \<Rightarrow> pyval" where
  "coerce_stripped s =
     (if s = [] then VStr s
      else case pair_rule s of
        Some v \<Rightarrow> v
      | None \<Rightarrow>
          if CHR '','' \<in> set s \<and> \<not> has_bracket s then comma_rule s
          else if RE_INT s then VInt (py_int s)
          else if RE_FLOAT s then VFloat (py_float s)
          else (case RE_NUM_UNIT s of
                  Some (num_str, unit) \<Rightarrow> VDict [(''value'', py_num num_str), (''unit'', VStr unit)]
                | None \<Rightarrow> VStr s))"

definition coerce_value :: "string \<Rightarrow> pyval" where
  "coerce_value s = coerce_stripped (strip_char CHR '','' (strip s))"


definition is_comma :: "char \<Rightarrow> bool" where
  "is_comma c = (c = CHR '','')"

section \<open>Endpoints\<close>







section \<open>The header line\<close>









section \<open>Metrics\<close>

text \<open>\<^verbatim>\<open>parse_paren_body\<close>: the inside of \<^verbatim>\<open>name:(...)\<close>.\<close>

fun paren_loop :: "string list \<Rightarrow> pydict \<Rightarrow> py_error + pydict" where
  "paren_loop [] out = Inr out"
| "paren_loop (p # ps) out =
     (if CHR '':'' \<in> set p then
        paren_loop ps
          (dict_set out (strip (fst (split_first CHR '':'' p)))
             (coerce_value (strip (snd (split_first CHR '':'' p)))))
      else (case setdefault_append out ''items'' p of
              Inl e \<Rightarrow> Inl e
            | Inr out' \<Rightarrow> paren_loop ps out'))"

definition parse_paren_body :: "string \<Rightarrow> py_error + pydict" where
  "parse_paren_body body =
     paren_loop (filter (\<lambda>p. p \<noteq> []) (map strip (split_on CHR '','' (strip body)))) []"

text \<open>
  \<^verbatim>\<open>RE_PAREN_GROUP = (?P<name>[A-Za-z0-9_]+):\((?P<body>[^)]*)\)\<close>, tried at the start
  of a string: the name is the whole run of word characters (a shorter name would have to
  be followed by a colon), the body runs to the first \<^verbatim>\<open>)\<close>. The result holds the
  rest of the string after the match.
\<close>

definition group_at :: "string \<Rightarrow> (string \<times> string \<times> string) option" where
  "group_at s =
     (let name = takeWhile is_word_char s; r = dropWhile is_word_char s
      in if name = [] then None
         else (case r of
                 c # d # r2 \<Rightarrow>
                   if c = CHR '':'' \<and> d = CHR ''('' then
                     (case dropWhile (\<lambda>x. x \<noteq> CHR '')'') r2 of
                        [] \<Rightarrow> None
                      | _ # rest \<Rightarrow> Some (name, takeWhile (\<lambda>x. x \<noteq> CHR '')'') r2, rest))
                   else None
               | _ \<Rightarrow> None))"

text \<open>
  One left-to-right scan of the text, as \<^verbatim>\<open>finditer\<close> and \<^verbatim>\<open>sub\<close> both do it:
  where the pattern matches, the match is taken and the scan goes on behind it; elsewhere
  one character is passed over.
\<close>

datatype segment = Lit char | Group string string

function scan_groups :: "string \<Rightarrow> segment list" where
  "scan_groups s =
     (case group_at s of
        Some (name, body, rest) \<Rightarrow> Group name body # scan_groups rest
      | None \<Rightarrow> (case s of [] \<Rightarrow> [] | c # cs \<Rightarrow> Lit c # scan_groups cs))"
  by pat_completeness auto
termination
proof (relation "measure length")
  show "wf (measure length)" by simp
next
  fix s :: string and x2 name y body rest
  assume a: "group_at s = Some x2" "(name, y) = x2" "(body, rest) = y"
  let ?r = "dropWhile is_word_char s"
  from a have "\<exists>r2 x. ?r = CHR '':'' # CHR ''('' # r2 \<and> dropWhile (\<lambda>x. x \<noteq> CHR '')'') r2 = x # rest"
    by (auto simp: group_at_def Let_def split: if_splits list.splits)
  then obtain r2 x where r: "?r = CHR '':'' # CHR ''('' # r2"
    and d: "dropWhile (\<lambda>x. x \<noteq> CHR '')'') r2 = x # rest" by blast
  have "length rest < length (dropWhile (\<lambda>x. x \<noteq> CHR '')'') r2)" using d by simp
  also have "\<dots> \<le> length r2" by (rule length_dropWhile_le)
  also have "\<dots> < length ?r" using r by simp
  also have "\<dots> \<le> length s" by (rule length_dropWhile_le)
  finally show "(rest, s) \<in> measure length" by simp
next
  fix s :: string and c cs
  assume "s = c # cs"
  then show "(cs, s) \<in> measure length" by simp
qed

declare scan_groups.simps [simp del]

definition finditer :: "string \<Rightarrow> (string \<times> string) list" where
  "finditer text = concat (map (\<lambda>g. case g of Group n b \<Rightarrow> [(n, b)] | Lit _ \<Rightarrow> []) (scan_groups text))"

definition re_sub :: "string \<Rightarrow> string" where
  "re_sub text = concat (map (\<lambda>g. case g of Group _ _ \<Rightarrow> [] | Lit c \<Rightarrow> [c]) (scan_groups text))"

text \<open>\<^verbatim>\<open>for m in RE_PAREN_GROUP.finditer(text): paren_groups[name] = parse_paren_body(body)\<close>.\<close>

fun groups_loop :: "(string \<times> string) list \<Rightarrow> pydict \<Rightarrow> py_error + pydict" where
  "groups_loop [] paren_groups = Inr paren_groups"
| "groups_loop ((name, body) # ms) paren_groups =
     (case parse_paren_body body of
        Inl e \<Rightarrow> Inl e
      | Inr g \<Rightarrow> groups_loop ms (dict_set paren_groups name (VDict g)))"

definition looks_like_value :: "string \<Rightarrow> bool" where
  "looks_like_value nxt = (RE_FLOAT nxt \<or> RE_NUM_UNIT nxt \<noteq> None \<or> RE_INT nxt)"

text \<open>A token that is neither \<^verbatim>\<open>key:value\<close> nor the key of a \<^verbatim>\<open>key value\<close> pair.\<close>

definition flag_or_unparsed :: "pydict \<Rightarrow> string \<Rightarrow> py_error + pydict" where
  "flag_or_unparsed metrics t =
     setdefault_append metrics (if RE_IDENTIFIER t then ''flags'' else ''unparsed'') t"

text \<open>The \<^verbatim>\<open>while i < len(tokens)\<close> loop of \<^verbatim>\<open>parse_metrics\<close>.\<close>

fun token_loop :: "string list \<Rightarrow> pydict \<Rightarrow> py_error + pydict" where
  "token_loop [] metrics = Inr metrics"
| "token_loop (t # ts) metrics =
     (if CHR '':'' \<in> set t then
        (let k = strip (fst (split_first CHR '':'' t)); v = strip (snd (split_first CHR '':'' t))
         in token_loop ts (if k \<noteq> [] then dict_set metrics k (coerce_value v) else metrics))
      else
        (case ts of
           nxt # rest \<Rightarrow>
             if RE_IDENTIFIER t \<and> CHR '':'' \<notin> set nxt \<and> looks_like_value nxt
             then token_loop rest (dict_set metrics t (coerce_value nxt))
             else (case flag_or_unparsed metrics t of
                     Inl e \<Rightarrow> Inl e
                   | Inr metrics' \<Rightarrow> token_loop ts metrics')
         | [] \<Rightarrow>
             (case flag_or_unparsed metrics t of
                Inl e \<Rightarrow> Inl e
              | Inr metrics' \<Rightarrow> token_loop ts metrics')))"

definition metrics_text :: "string list \<Rightarrow> string" where
  "metrics_text lines = strip (join_space (map strip lines))"

text \<open>What \<^verbatim>\<open>parse_metrics\<close> does with the tokens: the congestion-control name, then the loop.\<close>

definition outer_stage :: "string list \<Rightarrow> pydict \<Rightarrow> py_error + pydict" where
  "outer_stage tokens metrics =
     (case tokens of
        t # ts \<Rightarrow>
          if CHR '':'' \<notin> set t \<and> RE_IDENTIFIER t
          then token_loop ts (dict_set metrics ''cc'' (VStr t))
          else token_loop tokens metrics
      | [] \<Rightarrow> token_loop tokens metrics)"

definition parse_metrics :: "string list \<Rightarrow> py_error + pydict" where
  "parse_metrics lines =
     (let text = metrics_text lines; metrics = [(''raw'', VStr text)] in
      if text = [] then Inr metrics
      else
        (case groups_loop (finditer text) [] of
           Inl e \<Rightarrow> Inl e
         | Inr paren_groups \<Rightarrow>
             if paren_groups \<noteq> []
             then outer_stage (py_words (strip (re_sub text)))
                    (dict_set metrics ''groups'' (VDict paren_groups))
             else outer_stage (py_words text) metrics))"

text \<open>The text a segment of the scan stands for, and the tokens that write a given key.\<close>

definition segment_text :: "segment \<Rightarrow> string" where
  "segment_text g = (case g of Lit c \<Rightarrow> [c] | Group n b \<Rightarrow> n @ '':('' @ b @ '')'')"

definition writes_key :: "string \<Rightarrow> string \<Rightarrow> bool" where
  "writes_key k t = (t = k \<or> strip (fst (split_first CHR '':'' t)) = k)"

section \<open>The parser\<close>







section \<open>The publisher\<close>

































section \<open>Properties of the splitter\<close>

lemma split_loop_filter:
  "split_loop (filter kept_line lns) blocks ch cc = split_loop lns blocks ch cc"
  by (induction lns arbitrary: blocks ch cc) (simp_all add: kept_line_def split: option.splits)

lemma strip_prefix_lstrip: "\<exists>t. lstrip s = strip s @ t"
proof -
  have a: "dropWhile P (xs @ ys) = dropWhile P xs @ ys" if "\<exists>x\<in>set xs. \<not> P x"
    for P and xs ys :: "'a list"
    using that by (induction xs) auto
  let ?r = "rstrip s"
  have "s = ?r @ rev (takeWhile py_isspace (rev s))"
    unfolding rstrip_def
    by (metis rev_append rev_rev_ident takeWhile_dropWhile_id)
  then obtain t where s: "s = ?r @ t" and t: "\<forall>c\<in>set t. py_isspace c"
    by (metis set_rev set_takeWhileD)
  show ?thesis
  proof (cases "\<exists>x\<in>set ?r. \<not> py_isspace x")
    case True
    have "lstrip s = dropWhile py_isspace (?r @ t)" using s by (simp add: lstrip_def)
    also have "\<dots> = dropWhile py_isspace ?r @ t" using a [OF True] .
    finally show ?thesis by (auto simp: strip_def lstrip_def)
  next
    case False
    then have "strip s = []" by (simp add: strip_def lstrip_def)
    then show ?thesis by simp
  qed
qed

lemma startswith_append:
  assumes "startswith s p"
  shows "startswith (s @ t) p"
proof -
  from assms have "length (take (length p) s) = length p" by (simp add: startswith_def)
  then have "length p \<le> length s" by simp
  then show ?thesis using assms by (simp add: startswith_def)
qed

lemma strip_not_state:
  assumes "\<not> is_state_row line"
  shows "\<not> startswith (strip line) ''State ''"
proof
  assume h: "startswith (strip line) ''State ''"
  obtain t where t: "lstrip line = strip line @ t" using strip_prefix_lstrip by blast
  from startswith_append [OF h, of t] have "startswith (lstrip line) ''State ''"
    using t by simp
  then show False using assms by (simp add: is_state_row_def)
qed

lemma split_loop_entries:
  assumes "\<forall>b\<in>set blocks. \<forall>e\<in>set (block_entries b). entry_ok all e"
    and "\<forall>h. ch = Some h \<longrightarrow> entry_ok all h"
    and "\<forall>e\<in>set cc. entry_ok all e"
    and "set lns \<subseteq> set all"
  shows "\<forall>b\<in>set (split_loop lns blocks ch cc). \<forall>e\<in>set (block_entries b). entry_ok all e"
  using assms
proof (induction lns arbitrary: blocks ch cc)
  case Nil
  then show ?case by (auto simp: block_entries_def split: option.splits)
next
  case (Cons line lns)
  from Cons.prems(4) have sub: "set lns \<subseteq> set all" and mem: "line \<in> set all" by simp_all
  show ?case
  proof (cases "kept_line line")
    case False
    have "split_loop (line # lns) blocks ch cc = split_loop lns blocks ch cc"
      using False by (auto simp: kept_line_def)
    then show ?thesis using Cons.IH [OF Cons.prems(1-3) sub] by simp
  next
    case True
    then have kk: "entry_ok all (strip line)" using mem by (auto simp: entry_ok_def)
    from True have nb: "\<not> is_blank line" "\<not> is_state_row line" by (simp_all add: kept_line_def)
    show ?thesis
    proof (cases "is_indented line")
      case ind: True
      show ?thesis
      proof (cases ch)
        case None
        have p1: "\<forall>b\<in>set (blocks @ [([], [strip line])]). \<forall>e\<in>set (block_entries b). entry_ok all e"
          using Cons.prems(1) kk by (simp add: block_entries_def)
        have "split_loop (line # lns) blocks ch cc
                = split_loop lns (blocks @ [([], [strip line])]) ch cc"
          using nb ind None by simp
        then show ?thesis using Cons.IH [OF p1 Cons.prems(2,3) sub] by simp
      next
        case (Some h)
        have p3: "\<forall>e\<in>set (cc @ [strip line]). entry_ok all e"
          using Cons.prems(3) kk by simp
        have "split_loop (line # lns) blocks ch cc = split_loop lns blocks ch (cc @ [strip line])"
          using nb ind Some by simp
        then show ?thesis using Cons.IH [OF Cons.prems(1,2) p3 sub] by simp
      qed
    next
      case ni: False
      let ?bl = "case ch of Some h \<Rightarrow> blocks @ [(h, cc)] | None \<Rightarrow> blocks"
      have p1: "\<forall>b\<in>set ?bl. \<forall>e\<in>set (block_entries b). entry_ok all e"
        using Cons.prems(1-3) by (cases ch) (simp_all add: block_entries_def)
      have p2: "\<forall>h. Some (strip line) = Some h \<longrightarrow> entry_ok all h" using kk by simp
      have p3: "\<forall>e\<in>set ([]::string list). entry_ok all e" by simp
      have "split_loop (line # lns) blocks ch cc = split_loop lns ?bl (Some (strip line)) []"
        using nb ni by simp
      then show ?thesis using Cons.IH [OF p1 p2 p3 sub] by simp
    qed
  qed
qed

lemma entry_ok_facts:
  assumes "entry_ok lns e"
  shows "e \<noteq> [] \<and> \<not> startswith e ''State ''"
  using assms strip_not_state
  by (auto simp: entry_ok_def kept_line_def is_blank_def)

text \<open>
  Claim C9. \<^verbatim>\<open>split_blocks\<close> skips every blank line and every line that begins with
  \<^verbatim>\<open>State \<close> once its leading whitespace is stripped, indented or not: the blocks are
  those of the input without these lines, and every header and continuation line of a
  block is the stripped form of a line that is neither blank nor such a row, so it is
  not empty and does not begin with \<^verbatim>\<open>State \<close>.
\<close>

theorem split_blocks_skips_state_and_blank:
  "split_blocks ss_output = split_loop (filter kept_line (input_lines ss_output)) [] None []
   \<and> (\<forall>b\<in>set (split_blocks ss_output). \<forall>e\<in>set (block_entries b).
        (\<exists>line\<in>set (input_lines ss_output). \<not> is_blank line \<and> \<not> is_state_row line \<and> e = strip line)
        \<and> e \<noteq> [] \<and> \<not> startswith e ''State '')"
proof -
  have a: "\<forall>b\<in>set (split_blocks ss_output). \<forall>e\<in>set (block_entries b).
             entry_ok (input_lines ss_output) e"
    unfolding split_blocks_def by (rule split_loop_entries) auto
  show ?thesis
  proof (intro conjI ballI)
    show "split_blocks ss_output = split_loop (filter kept_line (input_lines ss_output)) [] None []"
      by (simp add: split_blocks_def split_loop_filter)
  next
    fix b e assume "b \<in> set (split_blocks ss_output)" "e \<in> set (block_entries b)"
    then have e: "entry_ok (input_lines ss_output) e" using a by blast
    then show "\<exists>line\<in>set (input_lines ss_output). \<not> is_blank line \<and> \<not> is_state_row line \<and> e = strip line"
      by (auto simp: entry_ok_def kept_line_def)
    show "e \<noteq> []" using entry_ok_facts [OF e] by simp
    show "\<not> startswith e ''State ''" using entry_ok_facts [OF e] by simp
  qed
qed

theorem split_blocks_skips_state_and_blank_witness:
  "split_blocks ''State  Recv-Q\<newline>ESTAB 0 0 a:1 b:2\<newline>   State x\<newline>\<newline>   cubic''
     = [(''ESTAB 0 0 a:1 b:2'', [''cubic''])]
   \<and> ''cubic'' \<in> set (block_entries (''ESTAB 0 0 a:1 b:2'', [''cubic'']))
   \<and> ''cubic'' \<noteq> [] \<and> \<not> startswith ''cubic'' ''State ''"
proof -
  let ?t = "''State  Recv-Q\<newline>ESTAB 0 0 a:1 b:2\<newline>   State x\<newline>\<newline>   cubic''"
  let ?b = "(''ESTAB 0 0 a:1 b:2'', [''cubic''])"
  have e: "split_blocks ?t = [?b]"
    by code_simp
  have m: "''cubic'' \<in> set (block_entries ?b)"
    by (simp add: block_entries_def)
  from e have "?b \<in> set (split_blocks ?t)" by simp
  with split_blocks_skips_state_and_blank [of ?t] m
  have "''cubic'' \<noteq> [] \<and> \<not> startswith ''cubic'' ''State ''"
    by blast
  with e m show ?thesis by blast
qed

section \<open>Stripping\<close>

lemma strip_no_ws:
  assumes "s \<noteq> []" "\<not> py_isspace (hd s)" "\<not> py_isspace (last s)"
  shows "strip s = s"
proof -
  have "dropWhile py_isspace (rev s) = rev s"
    using assms by (cases "rev s") (auto simp: last_rev hd_rev)
  then have "rstrip s = s" by (simp add: rstrip_def)
  moreover have "dropWhile py_isspace s = s" using assms by (cases s) auto
  ultimately show ?thesis by (simp add: strip_def lstrip_def)
qed


lemma rstrip_ws_right:
  assumes "list_all py_isspace w"
  shows "rstrip (s @ w) = rstrip s"
proof -
  have "dropWhile py_isspace (rev w @ rev s) = dropWhile py_isspace (rev s)"
    using assms by (intro dropWhile_append2) (simp add: list_all_iff)
  then show ?thesis by (simp add: rstrip_def)
qed

lemma strip_ws_left:
  assumes "list_all py_isspace w"
  shows "strip (w @ s) = strip s"
proof (cases "\<forall>c\<in>set s. py_isspace c")
  case True
  then have "\<forall>c\<in>set (rev (w @ s)). py_isspace c" using assms by (auto simp: list_all_iff)
  then have "rstrip (w @ s) = []" unfolding rstrip_def by simp
  moreover from True have "rstrip s = []" unfolding rstrip_def by simp
  ultimately show ?thesis by (simp add: strip_def)
next
  case False
  then obtain c where c: "c \<in> set (rev s)" "\<not> py_isspace c" by auto
  have "dropWhile py_isspace (rev s @ rev w) = dropWhile py_isspace (rev s) @ rev w"
    using c by (rule dropWhile_append1)
  then have "rstrip (w @ s) = w @ rstrip s" by (simp add: rstrip_def)
  moreover have "dropWhile py_isspace (w @ rstrip s) = dropWhile py_isspace (rstrip s)"
    using assms by (intro dropWhile_append2) (simp add: list_all_iff)
  ultimately show ?thesis by (simp add: strip_def lstrip_def)
qed

lemma strip_ws_around:
  assumes "list_all py_isspace w1" "list_all py_isspace w2"
  shows "strip (w1 @ s @ w2) = strip s"
proof -
  have "strip (w1 @ s @ w2) = strip (s @ w2)" using assms(1) by (rule strip_ws_left)
  also have "\<dots> = strip s" using rstrip_ws_right [OF assms(2)] by (simp add: strip_def)
  finally show ?thesis .
qed

lemma strip_char_around:
  assumes "list_all (\<lambda>c. c = x) c1" "list_all (\<lambda>c. c = x) c2"
  shows "strip_char x (c1 @ s @ c2) = strip_char x s"
proof -
  let ?P = "\<lambda>c. c = x"
  have a: "dropWhile ?P (rev c2 @ rev s @ rev c1) = dropWhile ?P (rev s @ rev c1)"
    using assms(2) by (intro dropWhile_append2) (simp add: list_all_iff)
  show ?thesis
  proof (cases "\<forall>c\<in>set s. ?P c")
    case True
    then have "\<forall>c\<in>set (rev s @ rev c1). ?P c" using assms(1) by (auto simp: list_all_iff)
    then have "dropWhile ?P (rev s @ rev c1) = []" by simp
    with a have l: "dropWhile ?P (rev (c1 @ s @ c2)) = []" by simp
    from True have r: "dropWhile ?P (rev s) = []" by simp
    show ?thesis unfolding strip_char_def l r by simp
  next
    case False
    then obtain c where c: "c \<in> set (rev s)" "\<not> ?P c" by auto
    have "dropWhile ?P (rev s @ rev c1) = dropWhile ?P (rev s) @ rev c1"
      using c by (rule dropWhile_append1)
    then have "rev (dropWhile ?P (rev (c1 @ s @ c2))) = c1 @ rev (dropWhile ?P (rev s))"
      using a by simp
    moreover have "dropWhile ?P (c1 @ rev (dropWhile ?P (rev s))) = dropWhile ?P (rev (dropWhile ?P (rev s)))"
      using assms(1) by (intro dropWhile_append2) (simp add: list_all_iff)
    ultimately show ?thesis by (simp add: strip_char_def)
  qed
qed

lemma dropWhile_same_length:
  assumes "length (dropWhile P xs) = length xs"
  shows "dropWhile P xs = xs"
proof (cases xs)
  case Nil
  then show ?thesis by simp
next
  case (Cons x ys)
  have "\<not> P x"
  proof
    assume "P x"
    then have "length (dropWhile P xs) = length (dropWhile P ys)" using Cons by simp
    moreover have "length (dropWhile P ys) \<le> length ys" by (rule length_dropWhile_le)
    ultimately show False using assms Cons by simp
  qed
  then show ?thesis using Cons by simp
qed

lemma strip_fixed:
  assumes "strip s = s" "s \<noteq> []"
  shows "\<not> py_isspace (hd s) \<and> \<not> py_isspace (last s)"
proof -
  have l1: "length (rstrip s) \<le> length s"
    using length_dropWhile_le [of py_isspace "rev s"] by (simp add: rstrip_def)
  have "length (strip s) \<le> length (rstrip s)"
    unfolding strip_def lstrip_def by (rule length_dropWhile_le)
  with assms(1) l1 have "length (rstrip s) = length s" by simp
  then have "length (dropWhile py_isspace (rev s)) = length (rev s)" by (simp add: rstrip_def)
  then have r: "dropWhile py_isspace (rev s) = rev s" by (rule dropWhile_same_length)
  then have "rstrip s = s" by (simp add: rstrip_def)
  with assms(1) have f: "dropWhile py_isspace s = s" by (simp add: strip_def lstrip_def)
  from f assms(2) have "\<not> py_isspace (hd s)" by (metis hd_dropWhile)
  moreover from r assms(2) have "\<not> py_isspace (hd (rev s))" by (metis hd_dropWhile rev_is_Nil_conv)
  ultimately show ?thesis using assms(2) by (simp add: hd_rev)
qed

lemma comma_not_space: "is_comma c \<Longrightarrow> \<not> py_isspace c"
  by (simp add: is_comma_def py_isspace_def)

lemma strip_commas_around:
  assumes "list_all is_comma c1" "list_all is_comma c2" "strip s = s"
  shows "strip (c1 @ s @ c2) = c1 @ s @ c2"
proof (cases "c1 @ s @ c2 = []")
  case True
  then show ?thesis by (simp add: strip_def lstrip_def rstrip_def)
next
  case False
  have s: "s \<noteq> [] \<Longrightarrow> \<not> py_isspace (hd s) \<and> \<not> py_isspace (last s)"
    using strip_fixed [OF assms(3)] by simp
  have c1: "c1 \<noteq> [] \<Longrightarrow> \<not> py_isspace (hd c1)"
    using assms(1) comma_not_space by (cases c1) auto
  have c2: "c2 \<noteq> [] \<Longrightarrow> \<not> py_isspace (hd c2) \<and> \<not> py_isspace (last c2)"
    using assms(2) comma_not_space by (cases c2) (auto simp: list_all_iff)
  have c1l: "c1 \<noteq> [] \<Longrightarrow> \<not> py_isspace (last c1)"
    using assms(1) comma_not_space by (auto simp: list_all_iff)
  have h: "\<not> py_isspace (hd (c1 @ s @ c2))"
    using False s c1 c2 by (auto simp: hd_append)
  have l: "\<not> py_isspace (last (c1 @ s @ c2))"
    using False s c1l c2 by (auto simp: last_append)
  show ?thesis using False h l by (rule strip_no_ws)
qed


section \<open>Properties of value coercion\<close>

lemma coerce_ws_around:
  assumes "list_all py_isspace w1" "list_all py_isspace w2"
  shows "coerce_value (w1 @ s @ w2) = coerce_value s"
  using strip_ws_around [OF assms] by (simp add: coerce_value_def)

lemma coerce_commas_around:
  assumes "list_all is_comma c1" "list_all is_comma c2" "strip s = s"
  shows "coerce_value (c1 @ s @ c2) = coerce_value s"
proof -
  have a: "list_all (\<lambda>c. c = CHR '','') c1" "list_all (\<lambda>c. c = CHR '','') c2"
    using assms(1,2) by (simp_all add: list_all_iff is_comma_def)
  show ?thesis
    unfolding coerce_value_def strip_commas_around [OF assms] assms(3)
    using strip_char_around [OF a] by simp
qed

lemma coerce_blank:
  assumes "list_all py_isspace s \<or> list_all is_comma (strip s)"
  shows "coerce_value s = VStr []"
proof -
  have "strip_char CHR '','' (strip s) = []"
  proof (cases "list_all py_isspace s")
    case True
    then have d: "dropWhile py_isspace (rev s) = []" by (simp add: list_all_iff)
    have "rstrip s = []" unfolding rstrip_def d by simp
    then have "strip s = []" by (simp add: strip_def lstrip_def)
    then show ?thesis by (simp add: strip_char_def)
  next
    case False
    with assms have "list_all is_comma (strip s)" by simp
    then have d: "dropWhile (\<lambda>c. c = CHR '','') (rev (strip s)) = []"
      by (simp add: list_all_iff is_comma_def)
    show ?thesis unfolding strip_char_def d by simp
  qed
  then show ?thesis by (simp add: coerce_value_def coerce_stripped_def)
qed









text \<open>
  Claim C10, as stated, fails: a string of only commas and whitespace need not come back
  as the empty string. Whitespace is stripped once, before the commas, so the blank that
  the commas of \<^verbatim>\<open>", ,"\<close> enclose survives and is returned.
\<close>

theorem coerce_value_commas_blank_counterexample:
  "list_all (\<lambda>c. is_comma c \<or> py_isspace c) '', ,''
   \<and> coerce_value '', ,'' = VStr '' ''
   \<and> coerce_value '', ,'' \<noteq> VStr []"
  by code_simp

text \<open>
  Claim C10, amended. \<^verbatim>\<open>coerce_value\<close> strips surrounding whitespace first and
  leading and trailing commas second, before any rule: whitespace around the input does
  not change the result, nor do commas around an input that has no surrounding
  whitespace, and \<^verbatim>\<open>"12,"\<close> is the integer 12. A string of whitespace only, or one
  whose whitespace-stripped form is commas only, is returned as the empty string.
\<close>

theorem coerce_value_strips_first:
  "(list_all py_isspace w1 \<and> list_all py_isspace w2 \<longrightarrow>
      coerce_value (w1 @ s @ w2) = coerce_value s)
   \<and> (list_all is_comma c1 \<and> list_all is_comma c2 \<and> strip s = s \<longrightarrow>
      coerce_value (c1 @ s @ c2) = coerce_value s)
   \<and> coerce_value ''12,'' = VInt 12
   \<and> (list_all py_isspace s \<or> list_all is_comma (strip s) \<longrightarrow> coerce_value s = VStr [])"
proof -
  have "coerce_value ''12,'' = VInt 12" by code_simp
  then show ?thesis
    using coerce_ws_around coerce_commas_around coerce_blank by blast
qed

theorem coerce_value_strips_first_witness:
  "coerce_value ''  12,  '' = coerce_value ''12,''
   \<and> coerce_value '',,7ms,'' = coerce_value ''7ms''
   \<and> coerce_value ''12,'' = VInt 12
   \<and> coerce_value '' ,, '' = VStr []"
proof -
  have w: "list_all py_isspace ''  ''" by code_simp
  have c: "list_all is_comma '',,''" "list_all is_comma '',''" by code_simp+
  have s: "strip ''7ms'' = ''7ms''" by code_simp
  have b: "list_all is_comma (strip '' ,, '')" by code_simp
  note t1 = coerce_value_strips_first [of "''  ''" "''  ''" "''12,''" "'',,''" "'',''"]
  note t2 = coerce_value_strips_first [of "[]" "[]" "''7ms''" "'',,''" "'',''"]
  note t3 = coerce_value_strips_first [of "[]" "[]" "'' ,, ''" "[]" "[]"]
  from t1 w have "coerce_value (''  '' @ ''12,'' @ ''  '') = coerce_value ''12,''" by blast
  then have a1: "coerce_value ''  12,  '' = coerce_value ''12,''" by simp
  from t2 c s have "coerce_value ('',,'' @ ''7ms'' @ '','') = coerce_value ''7ms''" by blast
  then have a2: "coerce_value '',,7ms,'' = coerce_value ''7ms''" by simp
  from t1 have a3: "coerce_value ''12,'' = VInt 12" by blast
  from t3 b have a4: "coerce_value '' ,, '' = VStr []" by blast
  from a1 a2 a3 a4 show ?thesis by blast
qed

section \<open>Properties of the endpoint parser\<close>












section \<open>Properties of the metrics parser\<close>

lemma map_of_update_in_place:
  "map_of (map (\<lambda>(a, b). if a = k then (a, v) else (a, b)) d) k'
     = (if k' = k then map_option (\<lambda>_. v) (map_of d k) else map_of d k')"
  by (induction d) auto

lemma dict_get_set: "dict_get (dict_set d k v) k' = (if k' = k then Some v else dict_get d k')"
proof (cases "k \<in> fst ` set d")
  case True
  then obtain y where "map_of d k = Some y"
    by (metis map_of_eq_None_iff not_None_eq)
  with True show ?thesis
    by (simp add: dict_get_def dict_set_def map_of_update_in_place)
next
  case False
  then have "map_of d k = None" by (simp add: map_of_eq_None_iff)
  with False show ?thesis by (auto simp: dict_get_def dict_set_def map_add_def split: option.splits)
qed

lemma setdefault_append_other:
  assumes "setdefault_append d k x = Inr d'" "k' \<noteq> k"
  shows "dict_get d' k' = dict_get d k'"
proof (cases "dict_get d k")
  case None
  with assms(1) have "d' = d @ [(k, VList [VStr x])]" by (simp add: setdefault_append_def)
  then show ?thesis using assms(2) by (auto simp: dict_get_def map_add_def split: option.splits)
next
  case (Some y)
  with assms(1) obtain xs where "d' = dict_set d k (VList (xs @ [VStr x]))"
    by (cases y) (auto simp: setdefault_append_def)
  then show ?thesis using assms(2) by (simp add: dict_get_set)
qed

lemma flag_or_unparsed_other:
  assumes "flag_or_unparsed m t = Inr m'" "k \<noteq> ''flags''" "k \<noteq> ''unparsed''"
  shows "dict_get m' k = dict_get m k"
proof -
  let ?key = "if RE_IDENTIFIER t then ''flags'' else ''unparsed''"
  have "k \<noteq> ?key" using assms(2,3) by simp
  with assms(1) show ?thesis
    unfolding flag_or_unparsed_def by (rule setdefault_append_other)
qed

lemma token_loop_keeps:
  assumes "token_loop ts m = Inr m'" "\<forall>t\<in>set ts. \<not> writes_key k t"
    and "k \<noteq> ''flags''" "k \<noteq> ''unparsed''"
  shows "dict_get m' k = dict_get m k"
  using assms(1,2)
proof (induction ts m rule: token_loop.induct)
  case (1 metrics)
  then show ?case by simp
next
  case (2 t ts metrics)
  have nk: "\<not> writes_key k t" and rest: "\<forall>t\<in>set ts. \<not> writes_key k t"
    using "2.prems"(2) by simp_all
  note fl = flag_or_unparsed_other [OF _ assms(3,4)]
  show ?case
  proof (cases "CHR '':'' \<in> set t")
    case True
    let ?k = "strip (fst (split_first CHR '':'' t))"
    let ?m = "if ?k \<noteq> [] then dict_set metrics ?k (coerce_value (strip (snd (split_first CHR '':'' t)))) else metrics"
    from True "2.prems"(1) have "token_loop ts ?m = Inr m'" by (simp add: Let_def)
    with "2.IH"(1) [OF True refl refl] rest have "dict_get m' k = dict_get ?m k" by (simp add: Let_def)
    moreover have "?k \<noteq> k" using nk by (simp add: writes_key_def)
    ultimately show ?thesis by (simp add: dict_get_set)
  next
    case False
    note nc = False
    show ?thesis
    proof (cases ts)
      case Nil
      with nc "2.prems"(1) obtain x where x: "flag_or_unparsed metrics t = Inr x" "token_loop ts x = Inr m'"
        by (auto split: sum.splits)
      have "dict_get m' k = dict_get x k" using "2.IH"(2-) nc Nil x rest by blast
      with fl [OF x(1)] show ?thesis by simp
    next
      case (Cons nxt rest')
      show ?thesis
      proof (cases "RE_IDENTIFIER t \<and> CHR '':'' \<notin> set nxt \<and> looks_like_value nxt")
        case True
        with nc Cons "2.prems"(1) have "token_loop rest' (dict_set metrics t (coerce_value nxt)) = Inr m'"
          by simp
        moreover have "\<forall>t\<in>set rest'. \<not> writes_key k t" using rest Cons by simp
        ultimately have "dict_get m' k = dict_get (dict_set metrics t (coerce_value nxt)) k"
          using "2.IH"(2-) nc Cons True by blast
        moreover have "t \<noteq> k" using nk by (simp add: writes_key_def)
        ultimately show ?thesis by (simp add: dict_get_set)
      next
        case F: False
        with nc Cons "2.prems"(1) obtain x where x: "flag_or_unparsed metrics t = Inr x" "token_loop ts x = Inr m'"
          by (auto split: sum.splits)
        have "dict_get m' k = dict_get x k" using "2.IH"(2-) nc Cons F x rest by blast
        with fl [OF x(1)] show ?thesis by simp
      qed
    qed
  qed
qed

lemma outer_stage_keeps:
  assumes "outer_stage tokens m = Inr m'" "\<forall>t\<in>set tokens. \<not> writes_key k t"
    and "k \<noteq> ''flags''" "k \<noteq> ''unparsed''" "k \<noteq> ''cc''"
  shows "dict_get m' k = dict_get m k"
proof (cases tokens)
  case Nil
  with assms(1) show ?thesis by (simp add: outer_stage_def)
next
  case (Cons t ts)
  show ?thesis
  proof (cases "CHR '':'' \<notin> set t \<and> RE_IDENTIFIER t")
    case True
    with Cons assms(1) have "token_loop ts (dict_set m ''cc'' (VStr t)) = Inr m'"
      by (simp add: outer_stage_def)
    moreover have "\<forall>t\<in>set ts. \<not> writes_key k t" using assms(2) Cons by simp
    ultimately have "dict_get m' k = dict_get (dict_set m ''cc'' (VStr t)) k"
      using assms(3,4) by (rule token_loop_keeps)
    then show ?thesis using assms(5) by (simp add: dict_get_set)
  next
    case False
    with Cons assms(1) have "token_loop tokens m = Inr m'"
      by (auto simp: outer_stage_def)
    then show ?thesis using assms(2,3,4) by (rule token_loop_keeps)
  qed
qed

lemma groups_loop_last:
  assumes "groups_loop ms G0 = Inr G"
  shows "dict_get G n =
           (case map_of (rev ms) n of
              None \<Rightarrow> dict_get G0 n
            | Some b \<Rightarrow> (case parse_paren_body b of Inl e \<Rightarrow> None | Inr g \<Rightarrow> Some (VDict g)))
         \<and> (\<forall>b\<in>snd ` set ms. \<exists>g. parse_paren_body b = Inr g)"
  using assms
proof (induction ms arbitrary: G0)
  case Nil
  then show ?case by simp
next
  case (Cons m ms)
  obtain n0 b0 where m: "m = (n0, b0)" by (cases m)
  from Cons.prems m obtain g where g: "parse_paren_body b0 = Inr g"
    and r: "groups_loop ms (dict_set G0 n0 (VDict g)) = Inr G"
    by (auto split: sum.splits)
  note ih = Cons.IH [OF r]
  have mo: "map_of (rev (m # ms)) n =
              (case map_of (rev ms) n of Some b \<Rightarrow> Some b | None \<Rightarrow> if n = n0 then Some b0 else None)"
    using m by (auto simp: map_add_def split: option.splits)
  show ?case
  proof (intro conjI)
    show "dict_get G n =
           (case map_of (rev (m # ms)) n of
              None \<Rightarrow> dict_get G0 n
            | Some b \<Rightarrow> (case parse_paren_body b of Inl e \<Rightarrow> None | Inr g \<Rightarrow> Some (VDict g)))"
      unfolding mo using ih g by (auto simp: dict_get_set split: option.splits)
    show "\<forall>b\<in>snd ` set (m # ms). \<exists>g. parse_paren_body b = Inr g"
      using ih g m by auto
  qed
qed

lemma group_at_sound:
  assumes "group_at s = Some (n, b, rest)"
  shows "s = n @ '':('' @ b @ '')'' @ rest \<and> n \<noteq> [] \<and> list_all is_word_char n \<and> CHR '')'' \<notin> set b"
proof -
  let ?r = "dropWhile is_word_char s" and ?Q = "\<lambda>x. x \<noteq> CHR '')''"
  from assms have "\<exists>r2 x. ?r = CHR '':'' # CHR ''('' # r2 \<and> dropWhile ?Q r2 = x # rest
      \<and> n = takeWhile is_word_char s \<and> b = takeWhile ?Q r2 \<and> n \<noteq> []"
    by (auto simp: group_at_def Let_def split: if_splits list.splits)
  then obtain r2 x where r: "?r = CHR '':'' # CHR ''('' # r2" and d: "dropWhile ?Q r2 = x # rest"
    and n: "n = takeWhile is_word_char s" "n \<noteq> []" and b: "b = takeWhile ?Q r2" by blast
  have "hd (dropWhile ?Q r2) = CHR '')''" using d hd_dropWhile [of ?Q r2] by simp
  with d have x: "x = CHR '')''" by simp
  have "r2 = takeWhile ?Q r2 @ dropWhile ?Q r2" by simp
  then have r2: "r2 = b @ CHR '')'' # rest" using b d x by simp
  have "s = takeWhile is_word_char s @ ?r" by simp
  then have "s = n @ CHR '':'' # CHR ''('' # r2" using n(1) r by simp
  then have "s = n @ '':('' @ b @ '')'' @ rest" using r2 by simp
  moreover have "list_all is_word_char n" unfolding n(1) by (auto simp: list_all_iff dest: set_takeWhileD)
  moreover have "CHR '')'' \<notin> set b" unfolding b by (auto dest: set_takeWhileD)
  ultimately show ?thesis using n(2) by blast
qed

lemma segment_text_simps:
  "segment_text (Lit c) = [c]" "segment_text (Group n b) = n @ '':('' @ b @ '')''"
  by (simp_all add: segment_text_def)

lemma scan_groups_text: "concat (map segment_text (scan_groups s)) = s"
proof (induction s rule: scan_groups.induct)
  case (1 s)
  show ?case
  proof (cases "group_at s")
    case None
    show ?thesis
    proof (cases s)
      case Nil
      with None have "scan_groups s = []" by (subst scan_groups.simps) simp
      with Nil show ?thesis by simp
    next
      case (Cons c cs)
      with None have e: "scan_groups s = Lit c # scan_groups cs" by (subst scan_groups.simps) simp
      note ih = "1.IH"(1) [OF None Cons]
      with e Cons show ?thesis by (simp add: segment_text_simps)
    qed
  next
    case (Some x)
    obtain n b rest where x: "x = (n, b, rest)" by (cases x)
    with Some have e: "scan_groups s = Group n b # scan_groups rest" by (subst scan_groups.simps) simp
    from x Some "1.IH"(2) have "concat (map segment_text (scan_groups rest)) = rest" by simp
    moreover from group_at_sound Some x have "s = n @ '':('' @ b @ '')'' @ rest" by blast
    ultimately show ?thesis using e by (simp add: segment_text_simps)
  qed
qed

lemma dict_set_not_empty: "dict_set d k v \<noteq> []"
  by (auto simp: dict_set_def)

lemma groups_loop_not_empty:
  assumes "groups_loop ms G0 = Inr G" "ms \<noteq> [] \<or> G0 \<noteq> []"
  shows "G \<noteq> []"
  using assms
proof (induction ms arbitrary: G0)
  case Nil
  then show ?case by simp
next
  case (Cons m ms)
  obtain n0 b0 where m: "m = (n0, b0)" by (cases m)
  from Cons.prems(1) m obtain g where r: "groups_loop ms (dict_set G0 n0 (VDict g)) = Inr G"
    by (auto split: sum.splits)
  from Cons.IH [OF r] show ?case by (simp add: dict_set_not_empty)
qed

lemma groups_loop_returns:
  assumes "\<forall>b\<in>snd ` set ms. \<exists>g. parse_paren_body b = Inr g"
  shows "\<exists>G. groups_loop ms G0 = Inr G"
  using assms
proof (induction ms arbitrary: G0)
  case Nil
  then show ?case by simp
next
  case (Cons m ms)
  obtain n0 b0 where m: "m = (n0, b0)" by (cases m)
  from Cons.prems m obtain g where g: "parse_paren_body b0 = Inr g" by auto
  from Cons.prems have "\<forall>b\<in>snd ` set ms. \<exists>g. parse_paren_body b = Inr g" by simp
  from Cons.IH [OF this, of "dict_set G0 n0 (VDict g)"] g m show ?case by simp
qed

lemma finditer_text_not_empty: "finditer text \<noteq> [] \<Longrightarrow> text \<noteq> []"
proof
  assume a: "finditer text \<noteq> []" "text = []"
  have "group_at [] = None" by (simp add: group_at_def)
  then have "scan_groups [] = []" by (subst scan_groups.simps) simp
  with a show False by (simp add: finditer_def)
qed

text \<open>
  Claim C7, as stated, fails when two groups bear one name: \<^verbatim>\<open>paren_groups[name]\<close>
  is assigned once for each group, so the mapping keeps the parse of the second body and
  the parse of the first is stored nowhere.
\<close>

theorem parse_metrics_groups_counterexample:
  "finditer ''a:(x:1) a:(y:2)'' = [(''a'', ''x:1''), (''a'', ''y:2'')]
   \<and> parse_paren_body ''x:1'' = Inr [(''x'', VInt 1)]
   \<and> parse_paren_body ''y:2'' = Inr [(''y'', VInt 2)]
   \<and> parse_metrics [''a:(x:1) a:(y:2)'']
       = Inr [(''raw'', VStr ''a:(x:1) a:(y:2)''),
              (''groups'', VDict [(''a'', VDict [(''y'', VInt 2)])])]"
  by code_simp

text \<open>
  Claim C7, amended. Let the joined metrics text hold at least one \<^verbatim>\<open>name:(body)\<close>
  and let \<^verbatim>\<open>parse_paren_body\<close> return on every body. The scan cuts the text into the
  groups and the characters between them: the groups are what \<^verbatim>\<open>finditer\<close> yields,
  the characters between them what \<^verbatim>\<open>sub\<close> leaves. Every body is parsed by
  \<^verbatim>\<open>parse_paren_body\<close> on its own; the mapping of the groups holds under each name
  the parse of the last group of that name; it is stored under \<^verbatim>\<open>groups\<close> before the
  outer tokens are read; the outer tokens are those of the text without the groups; and
  when no outer token writes the key \<^verbatim>\<open>groups\<close>, the result holds the mapping under
  that key. The text \<^verbatim>\<open>bbr:(bw:100bps,mrtt:1.2)\<close> gives the group \<^verbatim>\<open>bbr\<close> with
  \<^verbatim>\<open>bw\<close> and \<^verbatim>\<open>mrtt\<close>, and the outer mapping holds \<^verbatim>\<open>raw\<close> and \<^verbatim>\<open>groups\<close> only.
\<close>

theorem parse_metrics_groups:
  assumes "text = metrics_text lines" and "finditer text \<noteq> []"
    and "\<forall>b\<in>snd ` set (finditer text). \<exists>g. parse_paren_body b = Inr g"
  shows "(\<exists>G. groups_loop (finditer text) [] = Inr G
            \<and> parse_metrics lines
                = outer_stage (py_words (strip (re_sub text)))
                    [(''raw'', VStr text), (''groups'', VDict G)]
            \<and> (\<forall>n. dict_get G n =
                  (case map_of (rev (finditer text)) n of
                     None \<Rightarrow> None
                   | Some b \<Rightarrow> (case parse_paren_body b of
                                  Inl e \<Rightarrow> None
                                | Inr g \<Rightarrow> Some (VDict g))))
            \<and> (\<forall>m. parse_metrics lines = Inr m
                    \<and> (\<forall>t\<in>set (py_words (strip (re_sub text))). \<not> writes_key ''groups'' t)
                  \<longrightarrow> dict_get m ''groups'' = Some (VDict G)))
       \<and> concat (map segment_text (scan_groups text)) = text
       \<and> parse_metrics [''bbr:(bw:100bps,mrtt:1.2)'']
           = Inr [(''raw'', VStr ''bbr:(bw:100bps,mrtt:1.2)''),
                  (''groups'',
                   VDict [(''bbr'',
                           VDict [(''bw'', VDict [(''value'', VInt 100), (''unit'', VStr ''bps'')]),
                                  (''mrtt'', VFloat (12 / 10))])])]"
proof (intro conjI)
  have ne: "metrics_text lines \<noteq> []" using assms(1,2) finditer_text_not_empty by simp
  from groups_loop_returns [OF assms(3)]
  obtain G where G: "groups_loop (finditer text) [] = Inr G" by blast
  have g: "G \<noteq> []" using groups_loop_not_empty [OF G] assms(2) by simp
  have ds: "dict_set [(''raw'', VStr text)] ''groups'' (VDict G)
              = [(''raw'', VStr text), (''groups'', VDict G)]"
    by (simp add: dict_set_def)
  have pm: "parse_metrics lines
              = outer_stage (py_words (strip (re_sub text)))
                  [(''raw'', VStr text), (''groups'', VDict G)]"
    using G ne g assms(1) ds by (simp add: parse_metrics_def Let_def)
  have last: "\<forall>n. dict_get G n =
                  (case map_of (rev (finditer text)) n of
                     None \<Rightarrow> None
                   | Some b \<Rightarrow> (case parse_paren_body b of
                                  Inl e \<Rightarrow> None
                                | Inr g \<Rightarrow> Some (VDict g)))"
  proof
    fix n
    from groups_loop_last [OF G, of n] show "dict_get G n =
                  (case map_of (rev (finditer text)) n of
                     None \<Rightarrow> None
                   | Some b \<Rightarrow> (case parse_paren_body b of
                                  Inl e \<Rightarrow> None
                                | Inr g \<Rightarrow> Some (VDict g)))"
      by (simp add: dict_get_def split: option.splits)
  qed
  have outer: "\<forall>m. parse_metrics lines = Inr m
                    \<and> (\<forall>t\<in>set (py_words (strip (re_sub text))). \<not> writes_key ''groups'' t)
                  \<longrightarrow> dict_get m ''groups'' = Some (VDict G)"
  proof (intro allI impI)
    fix m
    assume a: "parse_metrics lines = Inr m
               \<and> (\<forall>t\<in>set (py_words (strip (re_sub text))). \<not> writes_key ''groups'' t)"
    then have o: "outer_stage (py_words (strip (re_sub text)))
                    [(''raw'', VStr text), (''groups'', VDict G)] = Inr m"
      using pm by simp
    have nw: "\<forall>t\<in>set (py_words (strip (re_sub text))). \<not> writes_key ''groups'' t"
      using a by blast
    have "dict_get m ''groups'' = dict_get [(''raw'', VStr text), (''groups'', VDict G)] ''groups''"
      by (rule outer_stage_keeps [OF o nw]) simp_all
    then show "dict_get m ''groups'' = Some (VDict G)" by (simp add: dict_get_def)
  qed
  from G pm last outer
  show "\<exists>G. groups_loop (finditer text) [] = Inr G
            \<and> parse_metrics lines
                = outer_stage (py_words (strip (re_sub text)))
                    [(''raw'', VStr text), (''groups'', VDict G)]
            \<and> (\<forall>n. dict_get G n =
                  (case map_of (rev (finditer text)) n of
                     None \<Rightarrow> None
                   | Some b \<Rightarrow> (case parse_paren_body b of
                                  Inl e \<Rightarrow> None
                                | Inr g \<Rightarrow> Some (VDict g))))
            \<and> (\<forall>m. parse_metrics lines = Inr m
                    \<and> (\<forall>t\<in>set (py_words (strip (re_sub text))). \<not> writes_key ''groups'' t)
                  \<longrightarrow> dict_get m ''groups'' = Some (VDict G))"
    by blast
  show "concat (map segment_text (scan_groups text)) = text" by (rule scan_groups_text)
  show "parse_metrics [''bbr:(bw:100bps,mrtt:1.2)'']
           = Inr [(''raw'', VStr ''bbr:(bw:100bps,mrtt:1.2)''),
                  (''groups'',
                   VDict [(''bbr'',
                           VDict [(''bw'', VDict [(''value'', VInt 100), (''unit'', VStr ''bps'')]),
                                  (''mrtt'', VFloat (12 / 10))])])]"
    by code_simp
qed

theorem parse_metrics_groups_witness:
  "''cubic a:(x:1,7) rto:204 a:(y:2/3) app_limited''
     = metrics_text [''cubic a:(x:1,7) rto:204 a:(y:2/3)'', ''  app_limited'']
   \<and> finditer ''cubic a:(x:1,7) rto:204 a:(y:2/3) app_limited''
       = [(''a'', ''x:1,7''), (''a'', ''y:2/3'')]
   \<and> parse_paren_body ''x:1,7'' = Inr [(''x'', VInt 1), (''items'', VList [VStr ''7''])]
   \<and> parse_paren_body ''y:2/3'' = Inr [(''y'', VDict [(''a'', VInt 2), (''b'', VInt 3)])]
   \<and> re_sub ''cubic a:(x:1,7) rto:204 a:(y:2/3) app_limited'' = ''cubic  rto:204  app_limited''
   \<and> parse_metrics [''cubic a:(x:1,7) rto:204 a:(y:2/3)'', ''  app_limited'']
       = Inr [(''raw'', VStr ''cubic a:(x:1,7) rto:204 a:(y:2/3) app_limited''),
              (''groups'', VDict [(''a'', VDict [(''y'', VDict [(''a'', VInt 2), (''b'', VInt 3)])])]),
              (''cc'', VStr ''cubic''), (''rto'', VInt 204),
              (''flags'', VList [VStr ''app_limited''])]"
proof -
  let ?L = "[''cubic a:(x:1,7) rto:204 a:(y:2/3)'', ''  app_limited'']"
  let ?t = "''cubic a:(x:1,7) rto:204 a:(y:2/3) app_limited''"
  let ?G = "[(''a'', VDict [(''y'', VDict [(''a'', VInt 2), (''b'', VInt 3)])])]"
  have t: "?t = metrics_text ?L" by code_simp
  have f: "finditer ?t = [(''a'', ''x:1,7''), (''a'', ''y:2/3'')]" by code_simp
  have p1: "parse_paren_body ''x:1,7'' = Inr [(''x'', VInt 1), (''items'', VList [VStr ''7''])]"
    by code_simp
  have p2: "parse_paren_body ''y:2/3'' = Inr [(''y'', VDict [(''a'', VInt 2), (''b'', VInt 3)])]"
    by code_simp
  have r: "re_sub ?t = ''cubic  rto:204  app_limited''" by code_simp
  have g: "groups_loop [(''a'', ''x:1,7''), (''a'', ''y:2/3'')] [] = Inr ?G" by code_simp
  have o: "outer_stage (py_words (strip ''cubic  rto:204  app_limited''))
             [(''raw'', VStr ?t), (''groups'', VDict ?G)]
           = Inr [(''raw'', VStr ?t), (''groups'', VDict ?G),
                  (''cc'', VStr ''cubic''), (''rto'', VInt 204),
                  (''flags'', VList [VStr ''app_limited''])]"
    by code_simp
  have fne: "finditer ?t \<noteq> []" using f by simp
  have bodies: "\<forall>b\<in>snd ` set (finditer ?t). \<exists>g. parse_paren_body b = Inr g"
    unfolding f using p1 p2 by simp
  from parse_metrics_groups [OF t fne bodies]
  have "\<exists>G. groups_loop (finditer ?t) [] = Inr G
          \<and> parse_metrics ?L = outer_stage (py_words (strip (re_sub ?t)))
                                 [(''raw'', VStr ?t), (''groups'', VDict G)]"
    by blast
  then have "parse_metrics ?L = outer_stage (py_words (strip (re_sub ?t)))
                                  [(''raw'', VStr ?t), (''groups'', VDict ?G)]"
    unfolding f g by simp
  then have a: "parse_metrics ?L = Inr [(''raw'', VStr ?t), (''groups'', VDict ?G),
                  (''cc'', VStr ''cubic''), (''rto'', VInt 204),
                  (''flags'', VList [VStr ''app_limited''])]"
    unfolding r o .
  from t f p1 p2 r a show ?thesis by blast
qed

section \<open>Properties of the parser\<close>










section \<open>Properties of the publisher\<close>
































end
